theory Spec2Isabelle
  imports Complex_Main "HOL-Library.Word"
begin

unbundle bit_operations_syntax

section \<open>Data model\<close>

text \<open>
  The package \<^verbatim>\<open>bloomflt\<close> keeps one struct,
  \<^verbatim>\<open>BloomFilter { m int; k int; bucket *big.Int }\<close>.
  Go's \<^verbatim>\<open>int\<close> is taken as the 64-bit signed integer of the usual targets
  (amd64, arm64); it is modelled as a HOL \<open>int\<close>, and the two places where the code
  narrows it (\<^verbatim>\<open>uint32(b.m)\<close> and \<^verbatim>\<open>uint32(hashIdx)\<close>) are written out with
  \<open>word_of_int\<close>, which keeps the low 32 bits exactly as the Go conversion does. The loop
  counters only count from 0 up to \<open>k\<close>, so they never wrap. \<^verbatim>\<open>big.Int\<close> is an
  unbounded integer, hence \<open>int\<close> again; bytes are \<open>8 word\<close>, the hashes \<open>32 word\<close>.
\<close>

type_synonym byte = "8 word"
type_synonym uint32 = "32 word"
type_synonym uint64 = "64 word"

record BloomFilter =
  m :: int
  k :: int
  bucket :: int

text \<open>The run-time panics the code can reach.\<close>

datatype error = DivideByZero | NegativeBitIndex

definition MaxInt32 :: int where
  "MaxInt32 = 2147483647"

section \<open>Library primitives used by the package\<close>

subsection \<open>\<^verbatim>\<open>math/big\<close>: single-bit access\<close>

text \<open>
  \<^verbatim>\<open>(*Int).SetBit(x, i, 1)\<close> returns \<open>x\<close> with bit \<open>i\<close> set and
  \<^verbatim>\<open>(*Int).Bit(i)\<close> reads bit \<open>i\<close>; both panic on a negative index.
\<close>

definition SetBit :: "int \<Rightarrow> int \<Rightarrow> error + int" where
  "SetBit x i = (if i < 0 then Inl NegativeBitIndex else Inr (set_bit (nat i) x))"

definition Bit :: "int \<Rightarrow> int \<Rightarrow> error + nat" where
  "Bit x i = (if i < 0 then Inl NegativeBitIndex else Inr (if bit x (nat i) then 1 else 0))"

subsection \<open>\<^verbatim>\<open>hash/fnv\<close>: 32-bit FNV-1a\<close>

definition offset32 :: uint32 where
  "offset32 = 2166136261"

definition prime32 :: uint32 where
  "prime32 = 16777619"

fun fnv32a_write :: "uint32 \<Rightarrow> byte list \<Rightarrow> uint32" where
  "fnv32a_write hash [] = hash"
| "fnv32a_write hash (c # data) = fnv32a_write ((hash XOR ucast c) * prime32) data"

subsection \<open>\<^verbatim>\<open>hash/crc32\<close>: CRC-32 with the IEEE polynomial\<close>

definition IEEE :: uint32 where
  "IEEE = 0xedb88320"

fun crc_shift :: "nat \<Rightarrow> uint32 \<Rightarrow> uint32" where
  "crc_shift 0 crc = crc"
| "crc_shift (Suc j) crc =
     crc_shift j (if crc AND 1 = 1 then drop_bit 1 crc XOR IEEE else drop_bit 1 crc)"

definition IEEETable :: "byte \<Rightarrow> uint32" where
  "IEEETable i = crc_shift 8 (ucast i)"

fun crc_loop :: "uint32 \<Rightarrow> byte list \<Rightarrow> uint32" where
  "crc_loop crc [] = crc"
| "crc_loop crc (v # p) = crc_loop (IEEETable (ucast crc XOR v) XOR drop_bit 8 crc) p"

definition crc32_update :: "uint32 \<Rightarrow> byte list \<Rightarrow> uint32" where
  "crc32_update crc p = NOT (crc_loop (NOT crc) p)"

subsection \<open>\<^verbatim>\<open>encoding/binary\<close>: little-endian stores\<close>

definition PutUint32 :: "uint32 \<Rightarrow> byte list" where
  "PutUint32 v = [ucast v, ucast (drop_bit 8 v), ucast (drop_bit 16 v), ucast (drop_bit 24 v)]"

definition PutUint64 :: "uint64 \<Rightarrow> byte list" where
  "PutUint64 v = [ucast v, ucast (drop_bit 8 v), ucast (drop_bit 16 v), ucast (drop_bit 24 v),
     ucast (drop_bit 32 v), ucast (drop_bit 40 v), ucast (drop_bit 48 v), ucast (drop_bit 56 v)]"

subsection \<open>\<^verbatim>\<open>math\<close>: float64 arithmetic\<close>

text \<open>
  \<^verbatim>\<open>CalcOptimalMK\<close> works on \<^verbatim>\<open>float64\<close>. The float operations it uses are
  taken as parameters over an arbitrary carrier \<open>'f\<close>: none of them can panic in Go, and
  \<^verbatim>\<open>int(x)\<close> yields some \<^verbatim>\<open>int\<close> for every \<open>x\<close> (an implementation-dependent
  one when \<open>x\<close> is out of range or not a number).
\<close>

record 'f float_ops =
  f_of_int :: "int \<Rightarrow> 'f"
  f_lit :: "rat \<Rightarrow> 'f"
  f_mul :: "'f \<Rightarrow> 'f \<Rightarrow> 'f"
  f_div :: "'f \<Rightarrow> 'f \<Rightarrow> 'f"
  f_add :: "'f \<Rightarrow> 'f \<Rightarrow> 'f"
  f_Log :: "'f \<Rightarrow> 'f"
  f_Pow :: "'f \<Rightarrow> 'f \<Rightarrow> 'f"
  f_to_int :: "'f \<Rightarrow> int"

section \<open>The package\<close>

definition NewMK :: "int \<Rightarrow> int \<Rightarrow> BloomFilter" where
  "NewMK m0 k0 = \<lparr>m = m0, k = k0, bucket = 0\<rparr>"

definition CalcOptimalMK :: "'f float_ops \<Rightarrow> int \<Rightarrow> 'f \<Rightarrow> int \<times> int" where
  "CalcOptimalMK fl n falsePositiveRate =
    (let m0 = f_div fl (f_mul fl (f_mul fl (f_lit fl (-1)) (f_of_int fl n)) (f_Log fl falsePositiveRate))
                       (f_Pow fl (f_Log fl (f_lit fl 2)) (f_lit fl 2));
         k0 = f_mul fl (f_div fl m0 (f_of_int fl n)) (f_Log fl (f_lit fl 2))
     in (f_to_int fl (f_add fl m0 (f_lit fl (1/2))), f_to_int fl (f_add fl k0 (f_lit fl (1/2)))))"

definition New :: "'f float_ops \<Rightarrow> int \<Rightarrow> 'f \<Rightarrow> BloomFilter" where
  "New fl n falsePositiveRate =
    (case CalcOptimalMK fl n falsePositiveRate of (m0, k0) \<Rightarrow>
       let m1 = (if m0 < 1 then 1 else m0);
           m2 = (if m1 > MaxInt32 then MaxInt32 else m1);
           k1 = (if k0 < 1 then 1 else k0)
       in NewMK m2 k1)"

text \<open>The receiver of \<^verbatim>\<open>hash1\<close> and \<^verbatim>\<open>hash2\<close> is not used by their bodies.\<close>

definition hash1 :: "byte list \<Rightarrow> uint32" where
  "hash1 v = fnv32a_write offset32 v"

definition hash2 :: "byte list \<Rightarrow> uint32" where
  "hash2 v = crc32_update 0 v"

text \<open>
  \<^verbatim>\<open>index := (b.hash1(value) + b.hash2(value)*uint32(hashIdx)) % uint32(b.m)\<close>:
  the remainder panics when the low 32 bits of \<open>m\<close> are all zero.
\<close>

definition kiMiHash :: "BloomFilter \<Rightarrow> byte list \<Rightarrow> int \<Rightarrow> error + int" where
  "kiMiHash b v hashIdx =
    (if (word_of_int (m b) :: uint32) = 0 then Inl DivideByZero
     else Inr (uint ((hash1 v + hash2 v * word_of_int hashIdx) mod (word_of_int (m b) :: uint32))))"

function AddBytes_loop :: "BloomFilter \<Rightarrow> byte list \<Rightarrow> int \<Rightarrow> error + BloomFilter" where
  "AddBytes_loop b v h =
    (if h < k b then
       (case kiMiHash b v h of
          Inl e \<Rightarrow> Inl e
        | Inr index \<Rightarrow>
            (case SetBit (bucket b) index of
               Inl e \<Rightarrow> Inl e
             | Inr x \<Rightarrow> AddBytes_loop (b\<lparr>bucket := x\<rparr>) v (h + 1)))
     else Inr b)"
  by pat_completeness auto
termination
  by (relation "measure (\<lambda>(b, v, h). nat (k b - h))") auto

declare AddBytes_loop.simps [simp del]

definition AddBytes :: "BloomFilter \<Rightarrow> byte list \<Rightarrow> error + BloomFilter" where
  "AddBytes b v = AddBytes_loop b v 0"

definition AddUInt32 :: "BloomFilter \<Rightarrow> uint32 \<Rightarrow> error + BloomFilter" where
  "AddUInt32 b x = AddBytes b (PutUint32 x)"

definition AddUInt64 :: "BloomFilter \<Rightarrow> uint64 \<Rightarrow> error + BloomFilter" where
  "AddUInt64 b x = AddBytes b (PutUint64 x)"

function ContainsBytes_loop :: "BloomFilter \<Rightarrow> byte list \<Rightarrow> int \<Rightarrow> bool \<Rightarrow> error + bool" where
  "ContainsBytes_loop b v h res =
    (if h < k b then
       (case kiMiHash b v h of
          Inl e \<Rightarrow> Inl e
        | Inr index \<Rightarrow>
            (case Bit (bucket b) index of
               Inl e \<Rightarrow> Inl e
             | Inr x \<Rightarrow> ContainsBytes_loop b v (h + 1) (if x = 0 then False else res)))
     else Inr res)"
  by pat_completeness auto
termination
  by (relation "measure (\<lambda>(b, v, h, res). nat (k b - h))") auto

declare ContainsBytes_loop.simps [simp del]

definition ContainsBytes :: "BloomFilter \<Rightarrow> byte list \<Rightarrow> error + bool" where
  "ContainsBytes b v = ContainsBytes_loop b v 0 True"

definition ContainsUInt32 :: "BloomFilter \<Rightarrow> uint32 \<Rightarrow> error + bool" where
  "ContainsUInt32 b x = ContainsBytes b (PutUint32 x)"

definition ContainsUInt64 :: "BloomFilter \<Rightarrow> uint64 \<Rightarrow> error + bool" where
  "ContainsUInt64 b x = ContainsBytes b (PutUint64 x)"

section \<open>Notions used to state the properties\<close>

text \<open>
  The index \<^verbatim>\<open>kiMiHash\<close> returns when it does not panic, as a function of the
  field \<open>m\<close> alone.
\<close>

definition probe :: "int \<Rightarrow> byte list \<Rightarrow> int \<Rightarrow> int" where
  "probe mm v h = uint ((hash1 v + hash2 v * word_of_int h) mod (word_of_int mm :: uint32))"

text \<open>
  The probe position as the specification writes it:
  \<^verbatim>\<open>position(value, i) = (hash1(value) + i * hash2(value)) mod m\<close>, where the first
  hash is the 32-bit FNV-1a digest of the value (offset basis 2166136261, prime 16777619),
  the second its CRC-32 checksum with the IEEE polynomial (started from 0), and the product
  and the sum are each reduced modulo \<open>2 ^ 32\<close> before the final remainder.
\<close>

definition position :: "int \<Rightarrow> byte list \<Rightarrow> int \<Rightarrow> int" where
  "position mm v i =
    ((uint (fnv32a_write offset32 v) + (i * uint (crc32_update 0 v)) mod 2 ^ 32) mod 2 ^ 32) mod mm"


text \<open>A sequence of \<^verbatim>\<open>AddBytes\<close> calls on the same filter, stopping at the first panic.\<close>

fun AddBytes_all :: "BloomFilter \<Rightarrow> byte list list \<Rightarrow> error + BloomFilter" where
  "AddBytes_all b [] = Inr b"
| "AddBytes_all b (w # ws) =
     (case AddBytes b w of Inl e \<Rightarrow> Inl e | Inr b' \<Rightarrow> AddBytes_all b' ws)"

text \<open>
  The query as the specification describes it: return \<open>false\<close> at the first probe whose
  bit is 0, \<open>true\<close> when all \<open>k\<close> probes found a 1.
\<close>

function ContainsBytes_short_loop :: "BloomFilter \<Rightarrow> byte list \<Rightarrow> int \<Rightarrow> error + bool" where
  "ContainsBytes_short_loop b v h =
    (if h < k b then
       (case kiMiHash b v h of
          Inl e \<Rightarrow> Inl e
        | Inr index \<Rightarrow>
            (case Bit (bucket b) index of
               Inl e \<Rightarrow> Inl e
             | Inr x \<Rightarrow> if x = 0 then Inr False else ContainsBytes_short_loop b v (h + 1)))
     else Inr True)"
  by pat_completeness auto
termination
  by (relation "measure (\<lambda>(b, v, h). nat (k b - h))") auto

declare ContainsBytes_short_loop.simps [simp del]

definition ContainsBytes_short :: "BloomFilter \<Rightarrow> byte list \<Rightarrow> error + bool" where
  "ContainsBytes_short b v = ContainsBytes_short_loop b v 0"


text \<open>The number a byte sequence denotes when read as a little-endian integer.\<close>

fun le_decode :: "byte list \<Rightarrow> nat" where
  "le_decode [] = 0"
| "le_decode (c # cs) = unat c + 256 * le_decode cs"

subsection \<open>An accuracy model for the float operations\<close>






section \<open>Properties of the hashing scheme and of the two loops\<close>

lemma kiMiHash_probe:
  "(word_of_int (m b) :: uint32) \<noteq> 0 \<Longrightarrow> kiMiHash b v h = Inr (probe (m b) v h)"
  by (simp add: kiMiHash_def probe_def)

lemma kiMiHash_zero:
  "(word_of_int (m b) :: uint32) = 0 \<Longrightarrow> kiMiHash b v h = Inl DivideByZero"
  by (simp add: kiMiHash_def)

lemma probe_nonneg: "0 \<le> probe mm v h"
  by (simp add: probe_def)

lemma uint32_of_m: "1 \<le> mm \<Longrightarrow> mm < 2 ^ 32 \<Longrightarrow> uint (word_of_int mm :: uint32) = mm"
  by (simp add: uint_word_of_int take_bit_eq_mod)

lemma uint32_of_m_nonzero: "1 \<le> mm \<Longrightarrow> mm < 2 ^ 32 \<Longrightarrow> (word_of_int mm :: uint32) \<noteq> 0"
  using uint32_of_m [of mm] by auto

lemma word_of_int_nonzero_iff: "(word_of_int mm :: uint32) \<noteq> 0 \<longleftrightarrow> mm mod 2 ^ 32 \<noteq> 0"
  by (simp add: word_of_int_eq_0_iff take_bit_eq_mod dvd_eq_mod_eq_0)

lemma uint_kimi: "uint (h1 + h2 * (word_of_int i :: uint32)) = ((uint h1 + (i * uint h2) mod 2 ^ 32) mod 2 ^ 32)"
proof -
  have "uint (h1 + h2 * (word_of_int i :: uint32)) = (uint h1 + uint (h2 * (word_of_int i :: uint32))) mod 2 ^ 32"
    by (simp add: uint_word_ariths)
  moreover have "uint (h2 * (word_of_int i :: uint32)) = (uint h2 * (i mod 2 ^ 32)) mod 2 ^ 32"
    by (simp add: uint_word_ariths uint_word_of_int take_bit_eq_mod)
  moreover have "(uint h2 * (i mod 2 ^ 32)) mod 2 ^ 32 = (i * uint h2) mod 2 ^ 32"
    by (simp add: mod_mult_right_eq mult.commute)
  ultimately show ?thesis by simp
qed

lemma probe_position:
  assumes "1 \<le> mm" "mm < 2 ^ 32"
  shows "probe mm v i = position mm v i"
  using assms
  by (simp add: probe_def position_def uint_mod uint32_of_m uint_kimi hash1_def hash2_def)

lemma probe_less: "1 \<le> mm \<Longrightarrow> mm < 2 ^ 32 \<Longrightarrow> probe mm v i < mm"
  by (simp add: probe_position position_def)

lemma probe_not_neg: "\<not> probe mm v h < 0"
  using probe_nonneg [of mm v h] by simp

lemma AddBytes_loop_done: "\<not> h < k b \<Longrightarrow> AddBytes_loop b v h = Inr b"
  by (simp add: AddBytes_loop.simps)

lemma AddBytes_loop_zero:
  "(word_of_int (m b) :: uint32) = 0 \<Longrightarrow> h < k b \<Longrightarrow> AddBytes_loop b v h = Inl DivideByZero"
  by (simp add: AddBytes_loop.simps [of b v h] kiMiHash_zero)

lemma AddBytes_loop_step:
  "(word_of_int (m b) :: uint32) \<noteq> 0 \<Longrightarrow> h < k b \<Longrightarrow>
   AddBytes_loop b v h = AddBytes_loop (b\<lparr>bucket := set_bit (nat (probe (m b) v h)) (bucket b)\<rparr>) v (h + 1)"
  by (simp add: AddBytes_loop.simps [of b v h] kiMiHash_probe SetBit_def probe_not_neg)

lemma AddBytes_loop_bits:
  "(word_of_int (m b) :: uint32) \<noteq> 0 \<Longrightarrow>
   \<exists>b'. AddBytes_loop b v h = Inr b' \<and> m b' = m b \<and> k b' = k b \<and>
     (\<forall>n. bit (bucket b') n \<longleftrightarrow>
        bit (bucket b) n \<or> (\<exists>i. h \<le> i \<and> i < k b \<and> n = nat (probe (m b) v i)))"
proof (induction "nat (k b - h)" arbitrary: b h)
  case 0
  then have "\<not> h < k b" by simp
  then show ?case by (auto simp: AddBytes_loop_done)
next
  case (Suc d)
  then have lt: "h < k b" by linarith
  let ?b1 = "b\<lparr>bucket := set_bit (nat (probe (m b) v h)) (bucket b)\<rparr>"
  have d: "d = nat (k ?b1 - (h + 1))" using Suc.hyps(2) by simp
  have nz: "(word_of_int (m ?b1) :: uint32) \<noteq> 0" using Suc.prems by simp
  from Suc.hyps(1) [OF d nz] obtain b' where
    r: "AddBytes_loop ?b1 v (h + 1) = Inr b'" and mk: "m b' = m b" "k b' = k b" and
    bits: "\<And>n. bit (bucket b') n \<longleftrightarrow>
        bit (bucket ?b1) n \<or> (\<exists>i. h + 1 \<le> i \<and> i < k b \<and> n = nat (probe (m b) v i))"
    by auto
  have "AddBytes_loop b v h = Inr b'"
    using AddBytes_loop_step [OF Suc.prems lt] r by simp
  moreover have "bit (bucket b') n \<longleftrightarrow>
        bit (bucket b) n \<or> (\<exists>i. h \<le> i \<and> i < k b \<and> n = nat (probe (m b) v i))" for n
  proof -
    have split: "(\<exists>i. h \<le> i \<and> i < k b \<and> n = nat (probe (m b) v i)) \<longleftrightarrow>
      n = nat (probe (m b) v h) \<or> (\<exists>i. h + 1 \<le> i \<and> i < k b \<and> n = nat (probe (m b) v i))"
      (is "?L \<longleftrightarrow> ?R")
    proof
      assume ?L
      then obtain i where i: "h \<le> i" "i < k b" "n = nat (probe (m b) v i)" by blast
      show ?R
      proof (cases "i = h")
        case True with i show ?thesis by simp
      next
        case False with i have "h + 1 \<le> i" by simp
        with i show ?thesis by blast
      qed
    next
      assume ?R
      then show ?L
      proof
        assume "n = nat (probe (m b) v h)"
        with lt show ?L by (intro exI [of _ h]) simp
      next
        assume "\<exists>i. h + 1 \<le> i \<and> i < k b \<and> n = nat (probe (m b) v i)"
        then obtain i where "h + 1 \<le> i" "i < k b" "n = nat (probe (m b) v i)" by blast
        then show ?L by (intro exI [of _ i]) simp
      qed
    qed
    show ?thesis unfolding bits split by (auto simp: bit_simps)
  qed
  ultimately show ?case using mk by blast
qed

lemma ContainsBytes_loop_done: "\<not> h < k b \<Longrightarrow> ContainsBytes_loop b v h res = Inr res"
  by (simp add: ContainsBytes_loop.simps)

lemma ContainsBytes_loop_zero:
  "(word_of_int (m b) :: uint32) = 0 \<Longrightarrow> h < k b \<Longrightarrow> ContainsBytes_loop b v h res = Inl DivideByZero"
  by (simp add: ContainsBytes_loop.simps [of b v h] kiMiHash_zero)

lemma ContainsBytes_loop_step:
  "(word_of_int (m b) :: uint32) \<noteq> 0 \<Longrightarrow> h < k b \<Longrightarrow>
   ContainsBytes_loop b v h res =
   ContainsBytes_loop b v (h + 1) (res \<and> bit (bucket b) (nat (probe (m b) v h)))"
  by (simp add: ContainsBytes_loop.simps [of b v h] kiMiHash_probe Bit_def probe_not_neg)

lemma ContainsBytes_loop_bits:
  "(word_of_int (m b) :: uint32) \<noteq> 0 \<Longrightarrow>
   ContainsBytes_loop b v h res =
     Inr (res \<and> (\<forall>i. h \<le> i \<and> i < k b \<longrightarrow> bit (bucket b) (nat (probe (m b) v i))))"
proof (induction "nat (k b - h)" arbitrary: h res)
  case 0
  then have "\<not> h < k b" by simp
  then show ?case by (auto simp: ContainsBytes_loop_done)
next
  case (Suc d)
  then have lt: "h < k b" by linarith
  have d: "d = nat (k b - (h + 1))" using Suc.hyps(2) by simp
  have split: "(\<forall>i. h \<le> i \<and> i < k b \<longrightarrow> bit (bucket b) (nat (probe (m b) v i))) \<longleftrightarrow>
     bit (bucket b) (nat (probe (m b) v h)) \<and>
     (\<forall>i. h + 1 \<le> i \<and> i < k b \<longrightarrow> bit (bucket b) (nat (probe (m b) v i)))"
    (is "?L \<longleftrightarrow> ?R")
  proof
    assume ?L then show ?R using lt by auto
  next
    assume r: ?R
    show ?L
    proof (intro allI impI)
      fix i assume i: "h \<le> i \<and> i < k b"
      show "bit (bucket b) (nat (probe (m b) v i))"
      proof (cases "i = h")
        case True with r show ?thesis by simp
      next
        case False with i have "h + 1 \<le> i" by simp
        with i r show ?thesis by blast
      qed
    qed
  qed
  show ?case
    unfolding ContainsBytes_loop_step [OF Suc.prems lt] Suc.hyps(1) [OF d Suc.prems] split
    by auto
qed

lemma AddBytes_bits:
  assumes "(word_of_int (m b) :: uint32) \<noteq> 0"
  shows "\<exists>b'. AddBytes b v = Inr b' \<and> m b' = m b \<and> k b' = k b \<and>
     (\<forall>n. bit (bucket b') n \<longleftrightarrow>
        bit (bucket b) n \<or> (\<exists>i. 0 \<le> i \<and> i < k b \<and> n = nat (probe (m b) v i)))"
  unfolding AddBytes_def by (rule AddBytes_loop_bits [OF assms])

lemma ContainsBytes_bits:
  assumes "(word_of_int (m b) :: uint32) \<noteq> 0"
  shows "ContainsBytes b v =
     Inr (\<forall>i. 0 \<le> i \<and> i < k b \<longrightarrow> bit (bucket b) (nat (probe (m b) v i)))"
  unfolding ContainsBytes_def by (simp add: ContainsBytes_loop_bits [OF assms])

lemma AddBytes_all_mono:
  "(word_of_int (m b) :: uint32) \<noteq> 0 \<Longrightarrow>
   \<exists>b'. AddBytes_all b ws = Inr b' \<and> m b' = m b \<and> k b' = k b \<and>
     (\<forall>n. bit (bucket b) n \<longrightarrow> bit (bucket b') n)"
proof (induction ws arbitrary: b)
  case Nil
  then show ?case by simp
next
  case (Cons w ws)
  from AddBytes_bits [OF Cons.prems, of w] obtain b1 where
    b1: "AddBytes b w = Inr b1" "m b1 = m b" "k b1 = k b"
      "\<And>n. bit (bucket b) n \<Longrightarrow> bit (bucket b1) n"
    by blast
  from Cons.prems b1 have "(word_of_int (m b1) :: uint32) \<noteq> 0" by simp
  from Cons.IH [OF this] obtain b2 where
    b2: "AddBytes_all b1 ws = Inr b2" "m b2 = m b1" "k b2 = k b1"
      "\<And>n. bit (bucket b1) n \<Longrightarrow> bit (bucket b2) n"
    by blast
  show ?case using b1 b2 by simp
qed

lemma add_then_contains:
  assumes nz: "(word_of_int (m b) :: uint32) \<noteq> 0"
  shows "\<exists>b1 b2. AddBytes b v = Inr b1 \<and> AddBytes_all b1 ws = Inr b2 \<and>
           ContainsBytes b1 v = Inr True \<and> ContainsBytes b2 v = Inr True \<and>
           (\<forall>n. bit (bucket b1) n \<longrightarrow> bit (bucket b2) n)"
proof -
  from AddBytes_bits [OF nz, of v] obtain b1 where
    b1: "AddBytes b v = Inr b1" "m b1 = m b" "k b1 = k b" and
    set: "\<And>i. 0 \<le> i \<Longrightarrow> i < k b \<Longrightarrow> bit (bucket b1) (nat (probe (m b) v i))"
    by blast
  from nz b1 have nz1: "(word_of_int (m b1) :: uint32) \<noteq> 0" by simp
  from AddBytes_all_mono [OF nz1, of ws] obtain b2 where
    b2: "AddBytes_all b1 ws = Inr b2" "m b2 = m b1" "k b2 = k b1" and
    mono: "\<And>n. bit (bucket b1) n \<Longrightarrow> bit (bucket b2) n"
    by blast
  from nz1 b2 have nz2: "(word_of_int (m b2) :: uint32) \<noteq> 0" by simp
  have c1: "ContainsBytes b1 v = Inr True"
    using set b1 by (simp add: ContainsBytes_bits [OF nz1])
  have c2: "ContainsBytes b2 v = Inr True"
    using set mono b1 b2 by (simp add: ContainsBytes_bits [OF nz2])
  show ?thesis using b1 b2 c1 c2 mono by blast
qed


lemma ContainsBytes_short_loop_bits:
  "(word_of_int (m b) :: uint32) \<noteq> 0 \<Longrightarrow>
   ContainsBytes_short_loop b v h =
     Inr (\<forall>i. h \<le> i \<and> i < k b \<longrightarrow> bit (bucket b) (nat (probe (m b) v i)))"
proof (induction "nat (k b - h)" arbitrary: h)
  case 0
  then have "\<not> h < k b" by simp
  then show ?case by (auto simp: ContainsBytes_short_loop.simps [of b v h])
next
  case (Suc d)
  then have lt: "h < k b" by linarith
  have d: "d = nat (k b - (h + 1))" using Suc.hyps(2) by simp
  note IH = Suc.hyps(1) [OF d Suc.prems]
  show ?case
  proof (cases "bit (bucket b) (nat (probe (m b) v h))")
    case False
    have "ContainsBytes_short_loop b v h = Inr False"
      using False lt Suc.prems
      by (simp add: ContainsBytes_short_loop.simps [of b v h] kiMiHash_probe Bit_def probe_not_neg)
    moreover have "\<not> (\<forall>i. h \<le> i \<and> i < k b \<longrightarrow> bit (bucket b) (nat (probe (m b) v i)))"
      using False lt by (auto intro: exI [of _ h])
    ultimately show ?thesis by simp
  next
    case True
    have step: "ContainsBytes_short_loop b v h = ContainsBytes_short_loop b v (h + 1)"
      using True lt Suc.prems
      by (simp add: ContainsBytes_short_loop.simps [of b v h] kiMiHash_probe Bit_def probe_not_neg)
    have "(\<forall>i. h \<le> i \<and> i < k b \<longrightarrow> bit (bucket b) (nat (probe (m b) v i))) \<longleftrightarrow>
      (\<forall>i. h + 1 \<le> i \<and> i < k b \<longrightarrow> bit (bucket b) (nat (probe (m b) v i)))"
      (is "?L \<longleftrightarrow> ?R")
    proof
      assume ?L then show ?R by auto
    next
      assume r: ?R
      show ?L
      proof (intro allI impI)
        fix i assume i: "h \<le> i \<and> i < k b"
        show "bit (bucket b) (nat (probe (m b) v i))"
        proof (cases "i = h")
          case True with \<open>bit (bucket b) (nat (probe (m b) v h))\<close> show ?thesis by simp
        next
          case False with i have "h + 1 \<le> i" by simp
          with i r show ?thesis by blast
        qed
      qed
    qed
    then show ?thesis unfolding step IH by simp
  qed
qed

lemma in_range_iff_bits: "0 \<le> x \<and> x < 2 ^ n \<longleftrightarrow> (\<forall>j. bit (x::int) j \<longrightarrow> j < n)"
proof
  assume "0 \<le> x \<and> x < 2 ^ n"
  then have eq: "take_bit n x = x" by (simp add: take_bit_int_eq_self)
  have "j < n" if "bit x j" for j
  proof -
    from that eq have "bit (take_bit n x) j" by simp
    then show ?thesis by (simp only: bit_take_bit_iff)
  qed
  then show "\<forall>j. bit x j \<longrightarrow> j < n" by blast
next
  assume a: "\<forall>j. bit x j \<longrightarrow> j < n"
  have "take_bit n x = x"
    by (rule bit_eqI) (use a in \<open>auto simp: bit_take_bit_iff\<close>)
  then show "0 \<le> x \<and> x < 2 ^ n"
    by (simp add: take_bit_int_eq_self_iff)
qed

lemma AddBytes_in_range:
  assumes m1: "1 \<le> m b" and m2: "m b < 2 ^ 32"
    and r: "AddBytes b v = Inr b'"
    and x: "0 \<le> bucket b" "bucket b < 2 ^ nat (m b)"
  shows "0 \<le> bucket b' \<and> bucket b' < 2 ^ nat (m b)"
proof -
  have nz: "(word_of_int (m b) :: uint32) \<noteq> 0" using m1 m2 by (rule uint32_of_m_nonzero)
  from AddBytes_bits [OF nz, of v] r have
    bits: "\<And>n. bit (bucket b') n \<longleftrightarrow>
        bit (bucket b) n \<or> (\<exists>i. 0 \<le> i \<and> i < k b \<and> n = nat (probe (m b) v i))"
    by auto
  have old: "\<And>j. bit (bucket b) j \<Longrightarrow> j < nat (m b)"
    using x in_range_iff_bits [of "bucket b" "nat (m b)"] by blast
  have new: "nat (probe (m b) v i) < nat (m b)" for i
    using probe_less [OF m1 m2, of v i] probe_nonneg [of "m b" v i] by linarith
  have "\<forall>j. bit (bucket b') j \<longrightarrow> j < nat (m b)"
    using bits old new by auto
  then show ?thesis using in_range_iff_bits [of "bucket b'" "nat (m b)"] by blast
qed

lemma le_decode_low_byte:
  "unat (ucast w :: byte) + 256 * unat (drop_bit 8 w) = unat w" for w :: "'a::len word"
  by (simp only: unsigned_ucast_eq unat_drop_bit_eq) (simp add: take_bit_eq_mod drop_bit_eq_div)

lemma le_decode_PutUint32: "le_decode (PutUint32 x) = unat x"
proof -
  have "drop_bit 32 x = 0" by simp
  then have last: "unat (ucast (drop_bit 24 x) :: byte) = unat (drop_bit 24 x)"
    using le_decode_low_byte [of "drop_bit 24 x"] by simp
  have "le_decode (PutUint32 x) =
    unat (ucast x :: byte) + 256 * (unat (ucast (drop_bit 8 x) :: byte) +
      256 * (unat (ucast (drop_bit 16 x) :: byte) + 256 * unat (drop_bit 24 x)))"
    by (simp add: PutUint32_def last)
  also have "\<dots> = unat x"
    using le_decode_low_byte [of "drop_bit 16 x"] le_decode_low_byte [of "drop_bit 8 x"]
      le_decode_low_byte [of x]
    by simp
  finally show ?thesis .
qed


lemma le_decode_PutUint64: "le_decode (PutUint64 x) = unat x"
proof -
  have "drop_bit 64 x = 0" by simp
  then have last: "unat (ucast (drop_bit 56 x) :: byte) = unat (drop_bit 56 x)"
    using le_decode_low_byte [of "drop_bit 56 x"] by simp
  have "le_decode (PutUint64 x) =
    unat (ucast x :: byte) + 256 * (unat (ucast (drop_bit 8 x) :: byte) +
      256 * (unat (ucast (drop_bit 16 x) :: byte) +
      256 * (unat (ucast (drop_bit 24 x) :: byte) +
      256 * (unat (ucast (drop_bit 32 x) :: byte) +
      256 * (unat (ucast (drop_bit 40 x) :: byte) +
      256 * (unat (ucast (drop_bit 48 x) :: byte) + 256 * unat (drop_bit 56 x)))))))"
    by (simp add: PutUint64_def last)
  also have "\<dots> = unat x"
    using le_decode_low_byte [of "drop_bit 48 x"] le_decode_low_byte [of "drop_bit 40 x"]
      le_decode_low_byte [of "drop_bit 32 x"] le_decode_low_byte [of "drop_bit 24 x"]
      le_decode_low_byte [of "drop_bit 16 x"] le_decode_low_byte [of "drop_bit 8 x"]
      le_decode_low_byte [of x]
    by simp
  finally show ?thesis .
qed

lemma le_decode_inj:
  "length xs = length ys \<Longrightarrow> le_decode xs = le_decode ys \<Longrightarrow> xs = ys"
proof (induction xs ys rule: list_induct2)
  case Nil
  then show ?case by simp
next
  case (Cons x xs y ys)
  have bx: "unat x < 256" using unsigned_less [of x, where ?'a = nat] by simp
  have by': "unat y < 256" using unsigned_less [of y, where ?'a = nat] by simp
  from Cons.prems have eq: "unat x + 256 * le_decode xs = unat y + 256 * le_decode ys" by simp
  then have "(unat x + 256 * le_decode xs) mod 256 = (unat y + 256 * le_decode ys) mod 256"
    by simp
  with bx by' have xy: "unat x = unat y" by simp
  with eq have "le_decode xs = le_decode ys" by simp
  with Cons.IH have "xs = ys" by simp
  moreover from xy have "x = y" by (simp add: word_unat_eq_iff)
  ultimately show ?case by simp
qed

lemma le_bytes_uint32:
  assumes "length bs = 4" and "le_decode bs = unat x"
  shows "bs = PutUint32 x"
proof (rule le_decode_inj)
  show "length bs = length (PutUint32 x)" using assms(1) by (simp add: PutUint32_def)
  show "le_decode bs = le_decode (PutUint32 x)" using assms(2) by (simp add: le_decode_PutUint32)
qed

lemma le_bytes_uint64:
  assumes "length bs = 8" and "le_decode bs = unat x"
  shows "bs = PutUint64 x"
proof (rule le_decode_inj)
  show "length bs = length (PutUint64 x)" using assms(1) by (simp add: PutUint64_def)
  show "le_decode bs = le_decode (PutUint64 x)" using assms(2) by (simp add: le_decode_PutUint64)
qed

section \<open>Logarithm bounds and the sizing computation\<close>

















section \<open>The model on known values\<close>

text \<open>
  The two hashes of the one-byte input \<^verbatim>\<open>"a"\<close> are the published check values of
  32-bit FNV-1a and of CRC-32 (IEEE); with them, the two probes of a 64-bit filter with
  \<open>k = 2\<close> are the bits 44 and 47.
\<close>

lemma hash1_check: "hash1 [97] = 0xe40c292c"
  by code_simp

lemma hash2_check: "hash2 [97] = 0xe8b7be43"
  by code_simp

lemma kiMiHash_check:
  "kiMiHash (NewMK 64 2) [97] 0 = Inr 44 \<and> kiMiHash (NewMK 64 2) [97] 1 = Inr 47"
  by (simp add: kiMiHash_def NewMK_def hash1_check hash2_check)

lemma AddBytes_check:
  "AddBytes (NewMK 64 2) [97] = Inr \<lparr>m = 64, k = 2, bucket = 158329674399744\<rparr>"
  by code_simp

lemma ContainsBytes_check:
  "ContainsBytes \<lparr>m = 64, k = 2, bucket = 158329674399744\<rparr> [97] = Inr True \<and>
   ContainsBytes \<lparr>m = 64, k = 2, bucket = 17592186044416\<rparr> [97] = Inr False"
  by code_simp

section \<open>The claims\<close>

subsection \<open>C1: no false negatives\<close>

text \<open>
  C1, as amended. For every filter whose \<open>m\<close> is at least 1 and not a multiple of
  \<open>2 ^ 32\<close> and whose \<open>k\<close> is at least 1, and every byte sequence \<open>v\<close>:
  \<^verbatim>\<open>AddBytes(v)\<close> returns, \<^verbatim>\<open>ContainsBytes(v)\<close> then returns true, and it still
  returns true after any further sequence \<open>ws\<close> of \<^verbatim>\<open>AddBytes\<close> calls, none of
  which clears a bit. The claim as written asks only \<open>m \<ge> 1\<close>; at \<open>m = 2 ^ 32\<close>
  the conversion \<^verbatim>\<open>uint32(b.m)\<close> is 0 and \<^verbatim>\<open>AddBytes\<close> panics in its first
  iteration, which is the counterexample below.
\<close>

theorem no_false_negatives:
  assumes "1 \<le> m b" and "m b mod 2 ^ 32 \<noteq> 0" and "1 \<le> k b"
  shows "\<exists>b1 b2. AddBytes b v = Inr b1 \<and> AddBytes_all b1 ws = Inr b2 \<and>
           ContainsBytes b1 v = Inr True \<and> ContainsBytes b2 v = Inr True \<and>
           (\<forall>n. bit (bucket b1) n \<longrightarrow> bit (bucket b2) n)"
  using assms(2) by (intro add_then_contains) (simp add: word_of_int_nonzero_iff)

theorem no_false_negatives_counterexample:
  "1 \<le> m (NewMK 4294967296 1) \<and> 1 \<le> k (NewMK 4294967296 1) \<and>
   AddBytes (NewMK 4294967296 1) [] = Inl DivideByZero"
  by (simp add: NewMK_def AddBytes_def AddBytes_loop.simps kiMiHash_def)

theorem no_false_negatives_witness:
  "\<exists>b1 b2. AddBytes (NewMK 64 2) [1, 2] = Inr b1 \<and> AddBytes_all b1 [[3], [4, 5]] = Inr b2 \<and>
           ContainsBytes b1 [1, 2] = Inr True \<and> ContainsBytes b2 [1, 2] = Inr True \<and>
           (\<forall>n. bit (bucket b1) n \<longrightarrow> bit (bucket b2) n)"
  using no_false_negatives [of "NewMK 64 2" "[1, 2]" "[[3], [4, 5]]"] by (simp add: NewMK_def)

subsection \<open>C2: the probe-position formula\<close>

text \<open>
  C2. For every filter with \<open>1 \<le> m \<le> 2 ^ 31 - 1\<close>, every byte sequence \<open>v\<close> and
  every \<open>i\<close> with \<open>0 \<le> i < k\<close>, \<^verbatim>\<open>kiMiHash\<close> returns
  \<open>(hash1 v + i * hash2 v) mod m\<close>, where \<open>hash1 v\<close> is the 32-bit FNV-1a digest of
  \<open>v\<close>, \<open>hash2 v\<close> is its CRC-32 (IEEE) checksum, and the product and the sum wrap
  around at 32 bits before the remainder is taken. (\<open>position\<close> is written over the two
  library digests, not over the package's \<^verbatim>\<open>hash1\<close> and \<^verbatim>\<open>hash2\<close>.)
\<close>

theorem kiMiHash_position:
  assumes "1 \<le> m b" and "m b \<le> 2 ^ 31 - 1" and "0 \<le> i" and "i < k b"
  shows "kiMiHash b v i = Inr (position (m b) v i)"
proof -
  from assms have lt: "m b < 2 ^ 32" by simp
  show ?thesis
    using assms(1) lt by (simp add: kiMiHash_probe uint32_of_m_nonzero probe_position)
qed

theorem kiMiHash_position_witness:
  "kiMiHash (NewMK 64 2) [1, 2] 1 = Inr (position 64 [1, 2] 1)"
  using kiMiHash_position [of "NewMK 64 2" 1 "[1, 2]"] by (simp add: NewMK_def)

subsection \<open>C3: what the membership query returns\<close>

text \<open>
  C3, as amended. For every filter with \<open>1 \<le> m < 2 ^ 32\<close> and \<open>k \<ge> 1\<close> and every
  byte sequence \<open>v\<close>, \<^verbatim>\<open>ContainsBytes(v)\<close> returns true exactly when the bits at
  \<open>position(v, 0)\<close>, ..., \<open>position(v, k - 1)\<close> are all 1, and false otherwise; the
  variant that stops at the first zero bit returns the same answer. The claim as written
  asks only \<open>m \<ge> 1\<close>: at \<open>m = 2 ^ 32\<close> the query panics instead of returning, and
  for larger \<open>m\<close> the code reduces modulo the low 32 bits of \<open>m\<close>, not modulo \<open>m\<close>
  (at \<open>m = 2 ^ 32 + 1\<close> it reads bit 0 for the empty input, whose position is
  2166136261).
\<close>

theorem ContainsBytes_all_probes:
  assumes "1 \<le> m b" and "m b < 2 ^ 32" and "1 \<le> k b"
  shows "ContainsBytes b v = Inr (\<forall>i\<in>{0..<k b}. bit (bucket b) (nat (position (m b) v i))) \<and>
         ContainsBytes_short b v = ContainsBytes b v"
proof -
  have nz: "(word_of_int (m b) :: uint32) \<noteq> 0"
    using assms(1,2) by (rule uint32_of_m_nonzero)
  have pp: "probe (m b) v i = position (m b) v i" for i
    using assms(1,2) by (rule probe_position)
  have "ContainsBytes b v = Inr (\<forall>i\<in>{0..<k b}. bit (bucket b) (nat (position (m b) v i)))"
    by (simp add: ContainsBytes_bits [OF nz] pp Ball_def)
  moreover have "ContainsBytes_short b v = ContainsBytes b v"
    by (simp add: ContainsBytes_short_def ContainsBytes_short_loop_bits [OF nz]
        ContainsBytes_bits [OF nz])
  ultimately show ?thesis by simp
qed

theorem ContainsBytes_all_probes_counterexample:
  "1 \<le> m (NewMK 4294967296 1) \<and> 1 \<le> k (NewMK 4294967296 1) \<and>
   ContainsBytes (NewMK 4294967296 1) [] = Inl DivideByZero \<and>
   ContainsBytes \<lparr>m = 4294967297, k = 1, bucket = 1\<rparr> [] = Inr True \<and>
   position 4294967297 [] 0 = 2166136261 \<and>
   \<not> bit (1::int) (nat (position 4294967297 [] 0))"
  by (simp add: NewMK_def ContainsBytes_def ContainsBytes_loop.simps kiMiHash_def Bit_def
      position_def hash1_def hash2_def offset32_def crc32_update_def)

theorem ContainsBytes_all_probes_witness:
  "ContainsBytes (NewMK 64 2) [1, 2] =
     Inr (\<forall>i\<in>{0..<2}. bit (bucket (NewMK 64 2)) (nat (position 64 [1, 2] i))) \<and>
   ContainsBytes_short (NewMK 64 2) [1, 2] = ContainsBytes (NewMK 64 2) [1, 2]"
  using ContainsBytes_all_probes [of "NewMK 64 2" "[1, 2]"]
  by (simp add: NewMK_def)

subsection \<open>C5: deterministic sizing\<close>



subsection \<open>C6: the empty filter\<close>

text \<open>
  C6, as amended. For every \<open>m \<ge> 1\<close> that is not a multiple of \<open>2 ^ 32\<close> and every
  \<open>k \<ge> 1\<close>, the filter \<^verbatim>\<open>NewMK(m, k)\<close>, with nothing inserted, answers false to
  \<^verbatim>\<open>ContainsBytes(v)\<close> for every byte sequence \<open>v\<close>. The claim as written asks only
  \<open>m \<ge> 1\<close>; at \<open>m = 2 ^ 33\<close> the query panics with a division by zero.
\<close>

theorem empty_filter:
  assumes "1 \<le> m0" and "m0 mod 2 ^ 32 \<noteq> 0" and "1 \<le> k0"
  shows "ContainsBytes (NewMK m0 k0) v = Inr False"
proof -
  have nz: "(word_of_int (m (NewMK m0 k0)) :: uint32) \<noteq> 0"
    using assms(2) by (simp add: NewMK_def word_of_int_nonzero_iff)
  have "\<not> (\<forall>i. 0 \<le> i \<and> i < k0 \<longrightarrow> bit (0::int) (nat (probe m0 v i)))"
    using assms(3) by (auto intro: exI [of _ 0])
  then show ?thesis
    by (simp add: ContainsBytes_bits [OF nz]) (simp add: NewMK_def)
qed

theorem empty_filter_counterexample:
  "1 \<le> (8589934592::int) \<and> 1 \<le> (3::int) \<and>
   ContainsBytes (NewMK 8589934592 3) [65] = Inl DivideByZero"
  by (simp add: NewMK_def ContainsBytes_def ContainsBytes_loop.simps kiMiHash_def)

theorem empty_filter_witness:
  "ContainsBytes (NewMK 64 2) [65, 66] = Inr False"
  using empty_filter [of 64 2 "[65, 66]"] by simp

subsection \<open>C7: every index stays inside the bit array\<close>

text \<open>
  C7. For every filter with \<open>1 \<le> m \<le> 2 ^ 31 - 1\<close> and every byte sequence \<open>v\<close>: each
  index \<^verbatim>\<open>kiMiHash\<close> produces satisfies \<open>0 \<le> index < m\<close>, \<^verbatim>\<open>AddBytes\<close> and
  \<^verbatim>\<open>ContainsBytes\<close> both return without a panic, and a bucket that fits in \<open>m\<close> bits
  still fits in \<open>m\<close> bits after \<^verbatim>\<open>AddBytes\<close>.
\<close>

theorem index_within_array:
  assumes "1 \<le> m b" and "m b \<le> 2 ^ 31 - 1"
  shows "(\<exists>index. kiMiHash b v h = Inr index \<and> 0 \<le> index \<and> index < m b) \<and>
         (\<exists>b'. AddBytes b v = Inr b' \<and>
            (0 \<le> bucket b \<and> bucket b < 2 ^ nat (m b) \<longrightarrow>
             0 \<le> bucket b' \<and> bucket b' < 2 ^ nat (m b))) \<and>
         (\<exists>res. ContainsBytes b v = Inr res)"
proof -
  from assms have m1: "1 \<le> m b" and m2: "m b < 2 ^ 32" by simp_all
  have nz: "(word_of_int (m b) :: uint32) \<noteq> 0" using m1 m2 by (rule uint32_of_m_nonzero)
  have "\<exists>index. kiMiHash b v h = Inr index \<and> 0 \<le> index \<and> index < m b"
    using probe_less [OF m1 m2, of v h] by (simp add: kiMiHash_probe [OF nz] probe_nonneg)
  moreover have "\<exists>b'. AddBytes b v = Inr b' \<and>
            (0 \<le> bucket b \<and> bucket b < 2 ^ nat (m b) \<longrightarrow>
             0 \<le> bucket b' \<and> bucket b' < 2 ^ nat (m b))"
  proof -
    from AddBytes_bits [OF nz, of v] obtain b' where r: "AddBytes b v = Inr b'" by blast
    then show ?thesis using AddBytes_in_range [OF m1 m2 r] by blast
  qed
  moreover have "\<exists>res. ContainsBytes b v = Inr res"
    by (simp add: ContainsBytes_bits [OF nz])
  ultimately show ?thesis by blast
qed

theorem index_within_array_witness:
  "(\<exists>index. kiMiHash (NewMK 64 3) [1, 2] 2 = Inr index \<and> 0 \<le> index \<and> index < 64) \<and>
   (\<exists>b'. AddBytes (NewMK 64 3) [1, 2] = Inr b' \<and> 0 \<le> bucket b' \<and>
      bucket b' < 2 ^ 64) \<and>
   (\<exists>res. ContainsBytes (NewMK 64 3) [1, 2] = Inr res)"
  using index_within_array [where b = "NewMK 64 3" and v = "[1, 2]" and h = 2] by (simp add: NewMK_def)

subsection \<open>C9: inserting twice is inserting once\<close>

text \<open>
  C9. For every filter state and every byte sequence \<open>v\<close>, \<^verbatim>\<open>AddBytes(v)\<close> called
  twice in succession ends as \<^verbatim>\<open>AddBytes(v)\<close> called once does: in the same filter
  state (same \<open>m\<close>, \<open>k\<close> and bit array) when the first call returns, and in the same
  panic when it does not.
\<close>

theorem AddBytes_idempotent:
  "(case AddBytes b v of Inl e \<Rightarrow> Inl e | Inr b' \<Rightarrow> AddBytes b' v) = AddBytes b v"
proof (cases "(word_of_int (m b) :: uint32) = 0")
  case True
  show ?thesis
  proof (cases "0 < k b")
    case True
    with \<open>word_of_int (m b) = 0\<close> show ?thesis
      by (simp add: AddBytes_def AddBytes_loop_zero)
  next
    case False
    then show ?thesis by (simp add: AddBytes_def AddBytes_loop_done)
  qed
next
  case nz: False
  from AddBytes_bits [OF nz, of v] obtain b1 where
    b1: "AddBytes b v = Inr b1" "m b1 = m b" "k b1 = k b" and
    bits1: "\<And>n. bit (bucket b1) n \<longleftrightarrow>
        bit (bucket b) n \<or> (\<exists>i. 0 \<le> i \<and> i < k b \<and> n = nat (probe (m b) v i))"
    by blast
  from nz b1 have nz1: "(word_of_int (m b1) :: uint32) \<noteq> 0" by simp
  from AddBytes_bits [OF nz1, of v] obtain b2 where
    b2: "AddBytes b1 v = Inr b2" "m b2 = m b1" "k b2 = k b1" and
    bits2: "\<And>n. bit (bucket b2) n \<longleftrightarrow>
        bit (bucket b1) n \<or> (\<exists>i. 0 \<le> i \<and> i < k b1 \<and> n = nat (probe (m b1) v i))"
    by blast
  have "bucket b2 = bucket b1"
    by (rule bit_eqI) (use bits1 bits2 b1 in auto)
  with b2 have "b2 = b1" by simp
  with b1 b2 show ?thesis by simp
qed

theorem AddBytes_idempotent_witness:
  "(case AddBytes (NewMK 64 2) [1, 2] of Inl e \<Rightarrow> Inl e | Inr b' \<Rightarrow> AddBytes b' [1, 2]) =
     AddBytes (NewMK 64 2) [1, 2]"
  using AddBytes_idempotent [where b = "NewMK 64 2" and v = "[1, 2]"] by simp

subsection \<open>C4: the clamps of the capacity-based constructor\<close>

text \<open>
  C4. Whatever \<^verbatim>\<open>CalcOptimalMK\<close> computes (so for every \<open>n\<close>, every rate and every
  behaviour of the float operations), \<^verbatim>\<open>New(n, falsePositiveRate)\<close> returns a filter
  with \<open>1 \<le> m \<le> 2 ^ 31 - 1\<close> and \<open>k \<ge> 1\<close> and an all-zero bucket: \<open>m\<close> is the
  computed value raised to 1 and capped at \<open>2 ^ 31 - 1\<close>, \<open>k\<close> the computed value raised
  to 1. On that filter one insertion returns and the inserted value is found.
\<close>

theorem New_clamps:
  "1 \<le> m (New fl n p) \<and> m (New fl n p) \<le> 2 ^ 31 - 1 \<and> 1 \<le> k (New fl n p) \<and>
   bucket (New fl n p) = 0 \<and>
   m (New fl n p) = max 1 (min (2 ^ 31 - 1) (fst (CalcOptimalMK fl n p))) \<and>
   k (New fl n p) = max 1 (snd (CalcOptimalMK fl n p)) \<and>
   (\<exists>b'. AddBytes (New fl n p) v = Inr b' \<and> ContainsBytes b' v = Inr True)"
proof -
  obtain m0 k0 where c: "CalcOptimalMK fl n p = (m0, k0)" by (cases "CalcOptimalMK fl n p")
  have mk: "m (New fl n p) = max 1 (min (2 ^ 31 - 1) m0)" "k (New fl n p) = max 1 k0"
    "bucket (New fl n p) = 0"
    by (simp_all add: New_def c NewMK_def MaxInt32_def Let_def)
  have m1: "1 \<le> m (New fl n p)" and m2: "m (New fl n p) < 2 ^ 32"
    unfolding mk by simp_all
  have nz: "(word_of_int (m (New fl n p)) :: uint32) \<noteq> 0"
    using m1 m2 by (rule uint32_of_m_nonzero)
  from add_then_contains [OF nz, of v "[]"]
  have "\<exists>b'. AddBytes (New fl n p) v = Inr b' \<and> ContainsBytes b' v = Inr True" by blast
  moreover have "m (New fl n p) \<le> 2 ^ 31 - 1" unfolding mk by simp
  moreover have "1 \<le> k (New fl n p)" unfolding mk by simp
  ultimately show ?thesis using m1 mk c by simp
qed

subsection \<open>C8: the fixed-width integer wrappers\<close>

text \<open>
  C8, as amended. \<^verbatim>\<open>AddUInt32\<close> and \<^verbatim>\<open>ContainsUInt32\<close> work on the same 4 bytes,
  the little-endian encoding of their argument, and the 64-bit pair on the same 8 bytes:
  on any filter \<open>c\<close>, \<^verbatim>\<open>AddUInt32(x)\<close> is \<^verbatim>\<open>AddBytes(bs)\<close> and
  \<^verbatim>\<open>ContainsUInt32(x)\<close> is \<^verbatim>\<open>ContainsBytes(bs)\<close> for the sequence \<open>bs\<close> of
  4 bytes that reads as \<open>x\<close> in little-endian order, which is what
  \<^verbatim>\<open>PutUint32\<close> stores (and the same with 8 bytes for the 64-bit pair). So for
  every filter whose \<open>m\<close> is at least 1 and not a multiple of \<open>2 ^ 32\<close> and whose
  \<open>k\<close> is at least 1, \<^verbatim>\<open>AddUInt32(x)\<close> followed by \<^verbatim>\<open>ContainsUInt32(x)\<close> returns
  true, and likewise \<^verbatim>\<open>AddUInt64(y)\<close> followed by \<^verbatim>\<open>ContainsUInt64(y)\<close>. The claim
  as written asks only \<open>m \<ge> 1\<close>; at \<open>m = 2 ^ 32\<close> both wrappers panic.
\<close>

theorem uint_roundtrip:
  assumes "1 \<le> m b" and "m b mod 2 ^ 32 \<noteq> 0" and "1 \<le> k b"
  shows "(\<exists>b'. AddUInt32 b x = Inr b' \<and> ContainsUInt32 b' x = Inr True) \<and>
         (\<exists>b'. AddUInt64 b y = Inr b' \<and> ContainsUInt64 b' y = Inr True) \<and>
         length (PutUint32 x) = 4 \<and> le_decode (PutUint32 x) = unat x \<and>
         length (PutUint64 y) = 8 \<and> le_decode (PutUint64 y) = unat y \<and>
         (\<forall>bs. length bs = 4 \<and> le_decode bs = unat x \<longrightarrow>
            AddUInt32 c x = AddBytes c bs \<and> ContainsUInt32 c x = ContainsBytes c bs) \<and>
         (\<forall>bs. length bs = 8 \<and> le_decode bs = unat y \<longrightarrow>
            AddUInt64 c y = AddBytes c bs \<and> ContainsUInt64 c y = ContainsBytes c bs)"
proof -
  have nz: "(word_of_int (m b) :: uint32) \<noteq> 0"
    using assms(2) by (simp add: word_of_int_nonzero_iff)
  from add_then_contains [OF nz, of "PutUint32 x" "[]"]
  have "\<exists>b'. AddUInt32 b x = Inr b' \<and> ContainsUInt32 b' x = Inr True"
    unfolding AddUInt32_def ContainsUInt32_def by blast
  moreover from add_then_contains [OF nz, of "PutUint64 y" "[]"]
  have "\<exists>b'. AddUInt64 b y = Inr b' \<and> ContainsUInt64 b' y = Inr True"
    unfolding AddUInt64_def ContainsUInt64_def by blast
  moreover have "length (PutUint32 x) = 4" by (simp add: PutUint32_def)
  moreover have "length (PutUint64 y) = 8" by (simp add: PutUint64_def)
  moreover have "AddUInt32 c x = AddBytes c bs \<and> ContainsUInt32 c x = ContainsBytes c bs"
    if "length bs = 4 \<and> le_decode bs = unat x" for bs
    using le_bytes_uint32 [of bs x] that by (simp add: AddUInt32_def ContainsUInt32_def)
  moreover have "AddUInt64 c y = AddBytes c bs \<and> ContainsUInt64 c y = ContainsBytes c bs"
    if "length bs = 8 \<and> le_decode bs = unat y" for bs
    using le_bytes_uint64 [of bs y] that by (simp add: AddUInt64_def ContainsUInt64_def)
  ultimately show ?thesis
    using le_decode_PutUint32 [of x] le_decode_PutUint64 [of y] by blast
qed

theorem uint_roundtrip_counterexample:
  "1 \<le> m (NewMK 4294967296 1) \<and> 1 \<le> k (NewMK 4294967296 1) \<and>
   AddUInt32 (NewMK 4294967296 1) 2147483647 = Inl DivideByZero \<and>
   AddUInt64 (NewMK 4294967296 1) 9223372036854775807 = Inl DivideByZero"
  by (simp add: NewMK_def AddUInt32_def AddUInt64_def AddBytes_def AddBytes_loop.simps
      kiMiHash_def)

theorem uint_roundtrip_witness:
  "(\<exists>b'. AddUInt32 (NewMK 959 7) 2147483647 = Inr b' \<and> ContainsUInt32 b' 2147483647 = Inr True) \<and>
   (\<exists>b'. AddUInt64 (NewMK 959 7) 9223372036854775807 = Inr b' \<and>
      ContainsUInt64 b' 9223372036854775807 = Inr True) \<and>
   le_decode (PutUint32 2147483647) = 2147483647 \<and>
   le_decode (PutUint64 9223372036854775807) = 9223372036854775807 \<and>
   AddUInt32 (NewMK 64 2) 2147483647 = AddBytes (NewMK 64 2) [255, 255, 255, 127] \<and>
   ContainsUInt32 (NewMK 64 2) 2147483647 = ContainsBytes (NewMK 64 2) [255, 255, 255, 127] \<and>
   AddUInt64 (NewMK 64 2) 258 = AddBytes (NewMK 64 2) [2, 1, 0, 0, 0, 0, 0, 0] \<and>
   ContainsUInt64 (NewMK 64 2) 258 = ContainsBytes (NewMK 64 2) [2, 1, 0, 0, 0, 0, 0, 0]"
proof -
  note a = uint_roundtrip [where b = "NewMK 959 7" and x = 2147483647
      and y = 9223372036854775807 and c = "NewMK 64 2"]
  note b = uint_roundtrip [where b = "NewMK 959 7" and x = 2147483647
      and y = 258 and c = "NewMK 64 2"]
  have h: "1 \<le> m (NewMK 959 7)" "m (NewMK 959 7) mod 2 ^ 32 \<noteq> 0" "1 \<le> k (NewMK 959 7)"
    by (simp_all add: NewMK_def)
  have d4: "length [255, 255, 255, 127 :: byte] = 4 \<and>
      le_decode [255, 255, 255, 127] = unat (2147483647 :: uint32)" by simp
  have d8: "length [2, 1, 0, 0, 0, 0, 0, 0 :: byte] = 8 \<and>
      le_decode [2, 1, 0, 0, 0, 0, 0, 0] = unat (258 :: uint64)" by simp
  from a [OF h] b [OF h] d4 d8 show ?thesis by simp
qed

subsection \<open>C10: the degenerate bit-array length 0\<close>

text \<open>
  C10, as amended. On the filter \<^verbatim>\<open>NewMK(0, k)\<close> \<^verbatim>\<open>kiMiHash\<close> always panics with a
  division by zero, because it reduces modulo \<^verbatim>\<open>uint32(m) = 0\<close>; so when \<open>k \<ge> 1\<close>
  every call of \<^verbatim>\<open>AddBytes\<close> or \<^verbatim>\<open>ContainsBytes\<close> panics that way. When \<open>m \<ge> 1\<close>
  and \<open>m\<close> is not a multiple of \<open>2 ^ 32\<close> the panic cannot happen and both operations
  return. The claim as written has the first part for every \<open>k\<close>, but with \<open>k \<le> 0\<close>
  the loops never call \<^verbatim>\<open>kiMiHash\<close> and both operations return; and it has the second
  part for every \<open>m \<ge> 1\<close>, but \<open>m = 2 ^ 32\<close> panics as \<open>m = 0\<close> does.
\<close>

theorem zero_m_panics:
  "kiMiHash (NewMK 0 k0) v h = Inl DivideByZero \<and>
   (1 \<le> k0 \<longrightarrow> AddBytes (NewMK 0 k0) v = Inl DivideByZero \<and>
      ContainsBytes (NewMK 0 k0) v = Inl DivideByZero) \<and>
   (1 \<le> m b \<and> m b mod 2 ^ 32 \<noteq> 0 \<longrightarrow>
      (\<exists>index. kiMiHash b v h = Inr index) \<and> (\<exists>b'. AddBytes b v = Inr b') \<and>
      (\<exists>res. ContainsBytes b v = Inr res))"
proof -
  have z: "(word_of_int (m (NewMK 0 k0)) :: uint32) = 0" by (simp add: NewMK_def)
  have a: "kiMiHash (NewMK 0 k0) v h = Inl DivideByZero"
    using z by (rule kiMiHash_zero)
  have b: "AddBytes (NewMK 0 k0) v = Inl DivideByZero \<and>
      ContainsBytes (NewMK 0 k0) v = Inl DivideByZero" if "1 \<le> k0"
  proof -
    from that have "0 < k (NewMK 0 k0)" by (simp add: NewMK_def)
    then show ?thesis
      unfolding AddBytes_def ContainsBytes_def
      using AddBytes_loop_zero [OF z] ContainsBytes_loop_zero [OF z] by simp
  qed
  have c: "(\<exists>index. kiMiHash b v h = Inr index) \<and> (\<exists>b'. AddBytes b v = Inr b') \<and>
      (\<exists>res. ContainsBytes b v = Inr res)" if "m b mod 2 ^ 32 \<noteq> 0"
  proof -
    from that have nz: "(word_of_int (m b) :: uint32) \<noteq> 0"
      by (simp add: word_of_int_nonzero_iff)
    from AddBytes_bits [OF nz, of v] obtain b' where "AddBytes b v = Inr b'" by blast
    then show ?thesis by (simp add: kiMiHash_probe [OF nz] ContainsBytes_bits [OF nz])
  qed
  show ?thesis using a b c by blast
qed

theorem zero_m_panics_counterexample:
  "AddBytes (NewMK 0 0) [7] = Inr (NewMK 0 0) \<and> ContainsBytes (NewMK 0 0) [7] = Inr True \<and>
   1 \<le> m (NewMK 4294967296 2) \<and> AddBytes (NewMK 4294967296 2) [7] = Inl DivideByZero \<and>
   ContainsBytes (NewMK 4294967296 2) [7] = Inl DivideByZero"
  by (simp add: NewMK_def AddBytes_def AddBytes_loop.simps ContainsBytes_def
      ContainsBytes_loop.simps kiMiHash_def)

theorem zero_m_panics_witness:
  "AddBytes (NewMK 0 3) [7] = Inl DivideByZero \<and>
   ContainsBytes (NewMK 0 3) [7] = Inl DivideByZero \<and>
   (\<exists>b'. AddBytes (NewMK 4294967297 3) [7] = Inr b') \<and>
   (\<exists>res. ContainsBytes (NewMK 4294967297 3) [7] = Inr res)"
  using zero_m_panics [where ?k0.0 = 3 and v = "[7]" and b = "NewMK 4294967297 3" and h = 0]
  by (simp add: NewMK_def)

end
